theory Spec2Isabelle
  imports Main "HOL-Library.Word" "HOL-Library.Multiset"
begin

section \<open>SafeQueueVariant: the shutdown-aware blocking queue\<close>

text \<open>
  Embedding of \<^verbatim>\<open>inc/BSignals/details/SafeQueueVariant.hpp\<close>. The class has the members
  \<^verbatim>\<open>shutdownObject\<close>, \<^verbatim>\<open>terminateFlag\<close>, \<^verbatim>\<open>q\<close> (a \<^verbatim>\<open>std::queue<T>\<close>, here a list
  with the front at the head), the mutex \<^verbatim>\<open>m\<close> and the condition variable \<^verbatim>\<open>c\<close>.
  Every member function takes the mutex for its whole body, so a call is one atomic
  state transformer, except where it waits on \<^verbatim>\<open>c\<close>: the wait gives the mutex up and
  other threads act on the queue before the caller runs again. The condition variable
  is kept as the list of notifications issued on it.
\<close>

datatype notification = notify_one | notify_all

record 'a SafeQueueVariant =
  shutdownObject :: 'a
  terminateFlag :: bool
  q :: "'a list"
  c :: "notification list"

text \<open>The constructor: \<^verbatim>\<open>shutdownObject(args...), terminateFlag(false), q(), m(), c()\<close>.\<close>

definition SafeQueueVariant_init :: "'a \<Rightarrow> 'a SafeQueueVariant" where
  "SafeQueueVariant_init args =
     \<lparr>shutdownObject = args, terminateFlag = False, q = [], c = []\<rparr>"

text \<open>\<^verbatim>\<open>enqueue\<close>: \<^verbatim>\<open>q.push(t); c.notify_one();\<close>\<close>

definition enqueue :: "'a \<Rightarrow> 'a SafeQueueVariant \<Rightarrow> 'a SafeQueueVariant" where
  "enqueue t s = s\<lparr>q := q s @ [t], c := c s @ [notify_one]\<rparr>"

text \<open>\<^verbatim>\<open>clear\<close>: \<^verbatim>\<open>while (!q.empty()) q.pop();\<close>\<close>

fun clear_loop :: "'a list \<Rightarrow> 'a list" where
  "clear_loop [] = []"
| "clear_loop (x # xs) = clear_loop xs"

definition clear :: "'a SafeQueueVariant \<Rightarrow> 'a SafeQueueVariant" where
  "clear s = s\<lparr>q := clear_loop (q s)\<rparr>"

text \<open>\<^verbatim>\<open>wakeWaiters\<close>: \<^verbatim>\<open>c.notify_all();\<close>\<close>

definition wakeWaiters :: "'a SafeQueueVariant \<Rightarrow> 'a SafeQueueVariant" where
  "wakeWaiters s = s\<lparr>c := c s @ [notify_all]\<rparr>"

text \<open>
  \<^verbatim>\<open>stop\<close>: \<^verbatim>\<open>terminateFlag = true; wakeWaiters(); lock; c.notify_all();\<close>
\<close>

definition stop :: "'a SafeQueueVariant \<Rightarrow> 'a SafeQueueVariant" where
  "stop s =
     (let s1 = s\<lparr>terminateFlag := True\<rparr>;
          s2 = wakeWaiters s1
      in s2\<lparr>c := c s2 @ [notify_all]\<rparr>)"

text \<open>The destructor: \<^verbatim>\<open>~SafeQueueVariant(){ stop(); }\<close>\<close>

definition destructor :: "'a SafeQueueVariant \<Rightarrow> 'a SafeQueueVariant" where
  "destructor s = stop s"

text \<open>
  The observers. \<^verbatim>\<open>size\<close> returns \<^verbatim>\<open>unsigned int\<close>, 32 bits wide on the platforms the
  library builds for, while \<^verbatim>\<open>q.size()\<close> is a \<^verbatim>\<open>size_t\<close>: the conversion keeps the low
  32 bits.
\<close>

definition isStopped :: "'a SafeQueueVariant \<Rightarrow> bool" where
  "isStopped s = terminateFlag s"

definition size_q :: "'a SafeQueueVariant \<Rightarrow> 32 word" where
  "size_q s = of_nat (length (q s))"

definition isEmpty :: "'a SafeQueueVariant \<Rightarrow> bool" where
  "isEmpty s = (q s = [])"

subsection \<open>Other threads\<close>

text \<open>
  What another thread can do to the queue inside one critical section of its own:
  push an item (\<^verbatim>\<open>enqueue\<close>), take the front item when there is one (the effect of a
  dequeue of any kind that delivers), empty the queue (\<^verbatim>\<open>clear\<close>), \<^verbatim>\<open>stop\<close> it, or only
  notify (\<^verbatim>\<open>wakeWaiters\<close>).
\<close>

datatype 'a env_step = EnvEnqueue 'a | EnvTake | EnvClear | EnvStop | EnvWake

fun interfere :: "'a SafeQueueVariant \<Rightarrow> 'a env_step \<Rightarrow> 'a SafeQueueVariant" where
  "interfere s (EnvEnqueue t) = enqueue t s"
| "interfere s EnvTake = (if q s = [] then s else s\<lparr>q := tl (q s)\<rparr>)"
| "interfere s EnvClear = clear s"
| "interfere s EnvStop = stop s"
| "interfere s EnvWake = wakeWaiters s"

text \<open>
  One return of \<^verbatim>\<open>c.wait(lock)\<close>: the steps other threads took while the caller was
  blocked. The empty list is a spurious wakeup.
\<close>

type_synonym 'a wakeup = "'a env_step list"

definition woken :: "'a SafeQueueVariant \<Rightarrow> 'a wakeup \<Rightarrow> 'a SafeQueueVariant" where
  "woken s w = foldl interfere s w"

text \<open>
  One return of \<^verbatim>\<open>c.wait_for(lock, timeout)\<close>: the steps of the other threads and the
  status the call reports. The duration itself is not modelled; whether it elapsed
  first is the status.
\<close>

datatype cv_status = no_timeout | timeout

type_synonym 'a timed_wakeup = "'a env_step list \<times> cv_status"

subsection \<open>The dequeue operations\<close>

text \<open>
  \<^verbatim>\<open>dequeue\<close>. The argument \<open>ws\<close> lists the wakeups that the caller's waits will see,
  in order; the result carries the wakeups not used. When the caller has to wait and
  no wakeup is left it blocks for ever: the result is \<open>None\<close>.
  \<^verbatim>\<open>
    if (terminateFlag) return shutdownObject;
    while (q.empty()){
        c.wait(lock);
        if (terminateFlag) return shutdownObject;
    }
    T val = q.front();
    q.pop();
    return val;
  \<close>
\<close>

fun dequeue_loop ::
  "'a SafeQueueVariant \<Rightarrow> 'a wakeup list \<Rightarrow> ('a \<times> 'a SafeQueueVariant \<times> 'a wakeup list) option"
where
  "dequeue_loop s ws =
     (if q s = [] then
        (case ws of
           [] \<Rightarrow> None
         | w # ws' \<Rightarrow>
             (let s' = woken s w
              in if terminateFlag s' then Some (shutdownObject s', s', ws')
                 else dequeue_loop s' ws'))
      else Some (hd (q s), s\<lparr>q := tl (q s)\<rparr>, ws))"

definition dequeue ::
  "'a SafeQueueVariant \<Rightarrow> 'a wakeup list \<Rightarrow> ('a \<times> 'a SafeQueueVariant \<times> 'a wakeup list) option"
where
  "dequeue s ws =
     (if terminateFlag s then Some (shutdownObject s, s, ws) else dequeue_loop s ws)"

text \<open>
  \<^verbatim>\<open>wait_for_dequeue\<close>. \<open>d\<close> is the value-initialised \<^verbatim>\<open>T\<close> that the default-constructed
  \<^verbatim>\<open>std::pair<T, bool> ret\<close> holds. \<^verbatim>\<open>q.front()\<close> on an empty \<^verbatim>\<open>std::queue\<close> has no
  defined behaviour; the model reports it as an error.
  \<^verbatim>\<open>
    ret.second = false;
    if (terminateFlag) return ret;
    bool success = (c.wait_for(lock, timeout) == std::cv_status::no_timeout);
    if (!success) return ret;
    ret.first = q.front();
    q.pop();
    ret.second = true;
    return ret;
  \<close>
\<close>

datatype error = front_of_empty_queue

definition wait_for_dequeue ::
  "'a \<Rightarrow> 'a SafeQueueVariant \<Rightarrow> 'a timed_wakeup \<Rightarrow> error + (('a \<times> bool) \<times> 'a SafeQueueVariant)"
where
  "wait_for_dequeue d s w =
     (if terminateFlag s then Inr ((d, False), s)
      else
        (let s' = woken s (fst w);
             success = (snd w = no_timeout)
         in if \<not> success then Inr ((d, False), s')
            else if q s' = [] then Inl front_of_empty_queue
            else Inr ((hd (q s'), True), s'\<lparr>q := tl (q s')\<rparr>)))"

text \<open>
  \<^verbatim>\<open>nonBlockingDequeue\<close>:
  \<^verbatim>\<open>
    std::pair<T, bool> ret;
    if (!q.empty()){ ret.first = q.front(); q.pop(); ret.second = true; }
    else { ret.second = false; }
    return ret;
  \<close>
\<close>

definition nonBlockingDequeue ::
  "'a \<Rightarrow> 'a SafeQueueVariant \<Rightarrow> ('a \<times> bool) \<times> 'a SafeQueueVariant"
where
  "nonBlockingDequeue d s =
     (if q s \<noteq> [] then ((hd (q s), True), s\<lparr>q := tl (q s)\<rparr>)
      else ((d, False), s))"

text \<open>
  \<^verbatim>\<open>wait()\<close>: \<^verbatim>\<open>if (terminateFlag) return; if (q.empty()) c.wait(lock);\<close>
  The wakeup is \<open>None\<close> when nothing ever wakes the caller.
\<close>

definition wait :: "'a SafeQueueVariant \<Rightarrow> 'a wakeup option \<Rightarrow> 'a SafeQueueVariant option" where
  "wait s w =
     (if terminateFlag s then Some s
      else if q s = [] then (case w of None \<Rightarrow> None | Some w' \<Rightarrow> Some (woken s w'))
      else Some s)"

text \<open>
  \<^verbatim>\<open>wait(timeout)\<close>:
  \<^verbatim>\<open>
    if (!q.empty()) return true;
    if (terminateFlag) return false;
    return (c.wait_for(lock, ...) == std::cv_status::no_timeout);
  \<close>
\<close>

definition wait_timeout ::
  "'a SafeQueueVariant \<Rightarrow> 'a timed_wakeup \<Rightarrow> bool \<times> 'a SafeQueueVariant"
where
  "wait_timeout s w =
     (if q s \<noteq> [] then (True, s)
      else if terminateFlag s then (False, s)
      else (snd w = no_timeout, woken s (fst w)))"

subsection \<open>Scenarios\<close>

text \<open>Enqueueing the items of a list one after the other, by one thread.\<close>

definition enqueue_all :: "'a SafeQueueVariant \<Rightarrow> 'a list \<Rightarrow> 'a SafeQueueVariant" where
  "enqueue_all s xs = foldl (\<lambda>s' x. enqueue x s') s xs"

text \<open>
  A call of a public member function, with the wakeups its waits will see. \<open>perform\<close>
  gives the state after the call; it is \<open>None\<close> when the call never returns or runs
  into undefined behaviour. The observers leave the state as it is.
\<close>

datatype 'a call =
    Enqueue 'a
  | Dequeue "'a wakeup list"
  | WaitForDequeue "'a timed_wakeup"
  | NonBlockingDequeue
  | Clear
  | WakeWaiters
  | Wait "'a wakeup option"
  | WaitTimeout "'a timed_wakeup"
  | Stop
  | IsStopped
  | Size
  | IsEmpty

fun perform :: "'a \<Rightarrow> 'a SafeQueueVariant \<Rightarrow> 'a call \<Rightarrow> 'a SafeQueueVariant option" where
  "perform d s (Enqueue t) = Some (enqueue t s)"
| "perform d s (Dequeue ws) = map_option (\<lambda>(v, s', ws'). s') (dequeue s ws)"
| "perform d s (WaitForDequeue w) =
     (case wait_for_dequeue d s w of Inl e \<Rightarrow> None | Inr (r, s') \<Rightarrow> Some s')"
| "perform d s NonBlockingDequeue = Some (snd (nonBlockingDequeue d s))"
| "perform d s Clear = Some (clear s)"
| "perform d s WakeWaiters = Some (wakeWaiters s)"
| "perform d s (Wait w) = wait s w"
| "perform d s (WaitTimeout w) = Some (snd (wait_timeout s w))"
| "perform d s Stop = Some (stop s)"
| "perform d s IsStopped = Some s"
| "perform d s Size = Some s"
| "perform d s IsEmpty = Some s"

fun perform_all ::
  "'a \<Rightarrow> 'a SafeQueueVariant \<Rightarrow> 'a call list \<Rightarrow> 'a SafeQueueVariant option"
where
  "perform_all d s [] = Some s"
| "perform_all d s (k # ks) =
     (case perform d s k of None \<Rightarrow> None | Some s' \<Rightarrow> perform_all d s' ks)"

text \<open>
  The state of a waiting caller after its first \<open>k\<close> wakeups.
\<close>

definition after_wakeups ::
  "'a SafeQueueVariant \<Rightarrow> 'a wakeup list \<Rightarrow> nat \<Rightarrow> 'a SafeQueueVariant"
where
  "after_wakeups s ws k = foldl woken s (take k ws)"

text \<open>
  A history of one queue with producers and a single consumer. \<open>Produce x\<close> is an
  \<^verbatim>\<open>enqueue(x)\<close> while the consumer is outside the queue; \<open>Consume ws\<close> is a call of
  \<^verbatim>\<open>dequeue()\<close> by the consumer, \<open>ws\<close> the wakeups of its waits. \<open>single_consumer\<close> runs
  the history and returns the values enqueued, in the order of the enqueues, the
  values the consumer's calls returned, in the order of the calls, and the final
  state. The enqueues of a wakeup count when the call used that wakeup. The result is
  \<open>None\<close> when a call of the consumer blocks for ever.
\<close>

datatype 'a event = Produce 'a | Consume "'a wakeup list"

fun pushed_step :: "'a env_step \<Rightarrow> 'a list" where
  "pushed_step (EnvEnqueue x) = [x]"
| "pushed_step EnvTake = []"
| "pushed_step EnvClear = []"
| "pushed_step EnvStop = []"
| "pushed_step EnvWake = []"

definition pushed :: "'a wakeup list \<Rightarrow> 'a list" where
  "pushed ws = concat (map pushed_step (concat ws))"

fun single_consumer ::
  "'a SafeQueueVariant \<Rightarrow> 'a event list \<Rightarrow> ('a list \<times> 'a list \<times> 'a SafeQueueVariant) option"
where
  "single_consumer s [] = Some ([], [], s)"
| "single_consumer s (Produce x # es) =
     map_option (\<lambda>(ins, outs, s'). (x # ins, outs, s')) (single_consumer (enqueue x s) es)"
| "single_consumer s (Consume ws # es) =
     (case dequeue s ws of
        None \<Rightarrow> None
      | Some (v, s1, rest) \<Rightarrow>
          map_option
            (\<lambda>(ins, outs, s'). (pushed (take (length ws - length rest) ws) @ ins, v # outs, s'))
            (single_consumer s1 es))"

text \<open>A history in which the other threads only enqueue.\<close>

fun is_enqueue :: "'a env_step \<Rightarrow> bool" where
  "is_enqueue (EnvEnqueue x) = True"
| "is_enqueue EnvTake = False"
| "is_enqueue EnvClear = False"
| "is_enqueue EnvStop = False"
| "is_enqueue EnvWake = False"

fun producers_only :: "'a event \<Rightarrow> bool" where
  "producers_only (Produce x) = True"
| "producers_only (Consume ws) = list_all (list_all is_enqueue) ws"

section \<open>WheeledThreadPool: the worker pool\<close>

text \<open>
  \<^verbatim>\<open>inc/BSignals/details/WheeledThreadPool.h\<close> declares the pool: the constant
  \<^verbatim>\<open>nThreads\<close>, the mutex \<^verbatim>\<open>tpLock\<close>, the flag \<^verbatim>\<open>isStarted\<close>, the wheel
  \<^verbatim>\<open>threadPooledFunctions\<close> of \<^verbatim>\<open>nThreads\<close> spokes and the worker threads
  \<^verbatim>\<open>queueMonitors\<close>, and it defines \<^verbatim>\<open>run\<close>. The header gives the spokes the type
  \<^verbatim>\<open>moodycamel::BlockingConcurrentQueue<std::function<void()>>\<close>. The wheel
  (\<^verbatim>\<open>Wheel.h\<close>), that queue type, and the bodies of \<^verbatim>\<open>startup\<close> and \<^verbatim>\<open>queueListener\<close>
  are not part of the sources at hand.
\<close>

text \<open>\<^verbatim>\<open>static const uint32_t nThreads{4};\<close>\<close>

definition nThreads :: nat where
  "nThreads = 4"

text \<open>
  Modelled from the spec: the class template \<^verbatim>\<open>Wheel<Q, N>\<close> of \<^verbatim>\<open>Wheel.h\<close>, the
  distribution ring. It "holds N queues (spokes)" and has "a round-robin cursor state
  inside the ring". The type \<open>'q\<close> of the spokes is the template's queue type.
\<close>

record 'q Wheel =
  spokes :: "'q list"
  cursor :: nat


text \<open>
  Modelled from the spec: \<^verbatim>\<open>Wheel::getSpoke()\<close>, absent with \<^verbatim>\<open>Wheel.h\<close>. It "yields the
  next one, in strict cyclic order, on each request": "spoke index advances by 1, mod
  N, per call". The result is the index of the spoke handed out and the wheel with
  the cursor advanced.
\<close>

definition getSpoke :: "'q Wheel \<Rightarrow> nat \<times> 'q Wheel" where
  "getSpoke w = (cursor w, w\<lparr>cursor := (cursor w + 1) mod length (spokes w)\<rparr>)"

text \<open>
  \<^verbatim>\<open>run\<close>: \<^verbatim>\<open>threadPooledFunctions.getSpoke().enqueue(task);\<close>
  The member \<^verbatim>\<open>enqueue\<close> called here is that of the spokes' queue type, which the
  sources do not contain: it is the parameter \<open>enq\<close>.
\<close>

definition run :: "('a \<Rightarrow> 'q \<Rightarrow> 'q) \<Rightarrow> 'a \<Rightarrow> 'q Wheel \<Rightarrow> 'q Wheel" where
  "run enq task w =
     (case getSpoke w of
        (i, w') \<Rightarrow> w'\<lparr>spokes := (spokes w')[i := enq task (spokes w' ! i)]\<rparr>)"









subsection \<open>Startup\<close>

text \<open>
  Modelled from the spec: where a thread that has called \<^verbatim>\<open>startup()\<close> is. The body of
  \<^verbatim>\<open>startup\<close> is not in the sources. By the spec callers "observe the lock and either
  become the sole initializer or wait until the flag shows Running/later and return
  immediately": a caller is about to take \<^verbatim>\<open>tpLock\<close>; holds it and is about to read
  \<^verbatim>\<open>isStarted\<close>; holds it and is the initializer, about to spawn the worker for spoke
  \<open>i\<close>; has returned after spawning the workers; or has returned after reading the
  flag set.
\<close>

datatype caller = AtLock | AtCheck | Spawning nat | ReturnedAsInitializer | ReturnedOnFlag

text \<open>
  Modelled from the spec: the pool's startup state, under the names the header
  declares: the holder of \<^verbatim>\<open>tpLock\<close>, the flag \<^verbatim>\<open>isStarted\<close>, and \<^verbatim>\<open>queueMonitors\<close>, one
  entry per worker thread spawned, holding the index of the spoke it is bound to. The
  callers of \<^verbatim>\<open>startup()\<close> are numbered from 0.
\<close>

record WheeledThreadPool =
  tpLock :: "nat option"
  isStarted :: bool
  queueMonitors :: "nat list"
  callers :: "caller list"

text \<open>
  Modelled from the spec: the pool before the first \<^verbatim>\<open>startup()\<close> ("worker threads are
  created the first time startup is invoked"), with \<open>T\<close> threads about to call it.
\<close>

definition startup_init :: "nat \<Rightarrow> WheeledThreadPool" where
  "startup_init T =
     \<lparr>tpLock = None, isStarted = False, queueMonitors = [], callers = replicate T AtLock\<rparr>"

text \<open>
  Modelled from the spec: one atomic step of caller \<open>t\<close> inside \<^verbatim>\<open>startup()\<close>, whose body
  is absent. A caller at the lock takes it when it is free and waits otherwise. The
  holder reads the flag: when the pool is started it releases the lock and returns;
  otherwise it is the initializer and spawns \<open>n\<close> workers in a loop over the spoke
  indices, each worker "bound to a distinct spoke index 0..N-1", then sets the flag,
  releases the lock and returns.
\<close>

fun caller_step :: "nat \<Rightarrow> WheeledThreadPool \<Rightarrow> nat \<Rightarrow> caller \<Rightarrow> WheeledThreadPool" where
  "caller_step n p t AtLock =
     (if tpLock p = None then p\<lparr>tpLock := Some t, callers := (callers p)[t := AtCheck]\<rparr>
      else p)"
| "caller_step n p t AtCheck =
     (if isStarted p then p\<lparr>tpLock := None, callers := (callers p)[t := ReturnedOnFlag]\<rparr>
      else p\<lparr>callers := (callers p)[t := Spawning 0]\<rparr>)"
| "caller_step n p t (Spawning i) =
     (if i < n
      then p\<lparr>queueMonitors := queueMonitors p @ [i],
             callers := (callers p)[t := Spawning (Suc i)]\<rparr>
      else p\<lparr>isStarted := True, tpLock := None,
             callers := (callers p)[t := ReturnedAsInitializer]\<rparr>)"
| "caller_step n p t ReturnedAsInitializer = p"
| "caller_step n p t ReturnedOnFlag = p"

text \<open>
  Modelled from the spec: concurrent calls of \<^verbatim>\<open>startup()\<close> as an interleaving. A
  schedule names, step by step, the caller that runs next; a number that is no
  caller's is a step of none.
\<close>

definition startup_step :: "nat \<Rightarrow> WheeledThreadPool \<Rightarrow> nat \<Rightarrow> WheeledThreadPool" where
  "startup_step n p t =
     (if t < length (callers p) then caller_step n p t (callers p ! t) else p)"

text \<open>
  Modelled from the spec: a run of the concurrent calls of \<^verbatim>\<open>startup()\<close>, the steps
  taken in the order of the schedule.
\<close>

definition startup_run :: "nat \<Rightarrow> WheeledThreadPool \<Rightarrow> nat list \<Rightarrow> WheeledThreadPool" where
  "startup_run n p sched = foldl (startup_step n) p sched"

text \<open>The callers that spawn or have spawned workers, and those that have returned.\<close>

fun is_initializer :: "caller \<Rightarrow> bool" where
  "is_initializer AtLock = False"
| "is_initializer AtCheck = False"
| "is_initializer (Spawning i) = True"
| "is_initializer ReturnedAsInitializer = True"
| "is_initializer ReturnedOnFlag = False"

fun has_returned :: "caller \<Rightarrow> bool" where
  "has_returned AtLock = False"
| "has_returned AtCheck = False"
| "has_returned (Spawning i) = False"
| "has_returned ReturnedAsInitializer = True"
| "has_returned ReturnedOnFlag = True"

fun in_guard :: "caller \<Rightarrow> bool" where
  "in_guard AtLock = False"
| "in_guard AtCheck = True"
| "in_guard (Spawning i) = True"
| "in_guard ReturnedAsInitializer = False"
| "in_guard ReturnedOnFlag = False"

text \<open>
  An upper bound on the steps of a caller that can still change the pool, and of all
  callers together.
\<close>

fun steps_left :: "nat \<Rightarrow> caller \<Rightarrow> nat" where
  "steps_left n AtLock = n + 3"
| "steps_left n AtCheck = n + 2"
| "steps_left n (Spawning i) = (n - i) + 1"
| "steps_left n ReturnedAsInitializer = 0"
| "steps_left n ReturnedOnFlag = 0"

definition startup_measure :: "nat \<Rightarrow> WheeledThreadPool \<Rightarrow> nat" where
  "startup_measure n p = sum_list (map (steps_left n) (callers p))"

text \<open>The invariant of the startup protocol with \<open>T\<close> callers and \<open>n\<close> workers.\<close>

definition startup_inv :: "nat \<Rightarrow> nat \<Rightarrow> WheeledThreadPool \<Rightarrow> bool" where
  "startup_inv n T p \<longleftrightarrow>
     length (callers p) = T \<and>
     (\<forall>t<T. in_guard (callers p ! t) = (tpLock p = Some t)) \<and>
     (\<forall>t. tpLock p = Some t \<longrightarrow> t < T) \<and>
     (\<forall>t<T. \<forall>i. callers p ! t = Spawning i \<longrightarrow>
        \<not> isStarted p \<and> i \<le> n \<and> queueMonitors p = [0..<i]) \<and>
     (isStarted p \<longrightarrow>
        queueMonitors p = [0..<n] \<and> (\<exists>t<T. callers p ! t = ReturnedAsInitializer)) \<and>
     (\<not> isStarted p \<longrightarrow> (\<forall>t<T. \<not> has_returned (callers p ! t))) \<and>
     (\<not> isStarted p \<and> (\<forall>t<T. \<not> is_initializer (callers p ! t)) \<longrightarrow> queueMonitors p = []) \<and>
     (\<forall>t<T. \<forall>u<T. is_initializer (callers p ! t) \<and> is_initializer (callers p ! u) \<longrightarrow> t = u)"

text \<open>
  The invariant that caller \<open>t0\<close> is the one initializer: no other caller spawns, and
  until the pool is started \<open>t0\<close> holds the lock.
\<close>

definition first_caller_inv :: "nat \<Rightarrow> nat \<Rightarrow> WheeledThreadPool \<Rightarrow> bool" where
  "first_caller_inv T t0 p \<longleftrightarrow>
     (\<forall>t<T. is_initializer (callers p ! t) \<longrightarrow> t = t0) \<and>
     (\<not> isStarted p \<longrightarrow> tpLock p = Some t0)"

section \<open>Basic facts\<close>

lemma clear_loop_empty: "clear_loop xs = []"
  by (induction xs) simp_all

lemma stop_eq: "stop s = s\<lparr>terminateFlag := True, c := c s @ [notify_all, notify_all]\<rparr>"
  by (simp add: stop_def wakeWaiters_def Let_def)

lemma interfere_flag: "terminateFlag s \<Longrightarrow> terminateFlag (interfere s e)"
  by (cases e) (simp_all add: enqueue_def clear_def stop_eq wakeWaiters_def)


lemma after_wakeups_0: "after_wakeups s ws 0 = s"
  by (simp add: after_wakeups_def)

lemma after_wakeups_Suc: "after_wakeups s (w # ws) (Suc k) = after_wakeups (woken s w) ws k"
  by (simp add: after_wakeups_def)

lemma ex_le_Suc: "(\<exists>k\<le>Suc n. P k) \<longleftrightarrow> P 0 \<or> (\<exists>k\<le>n. P (Suc k))"
  by (metis Suc_le_mono le0 not0_implies_Suc)

lemma q_enqueue_all: "q (enqueue_all s xs) = q s @ xs"
  unfolding enqueue_all_def by (induction xs arbitrary: s) (simp_all add: enqueue_def)

lemma flag_enqueue_all: "terminateFlag (enqueue_all s xs) = terminateFlag s"
  unfolding enqueue_all_def by (induction xs arbitrary: s) (simp_all add: enqueue_def)

lemma sentinel_enqueue_all: "shutdownObject (enqueue_all s xs) = shutdownObject s"
  unfolding enqueue_all_def by (induction xs arbitrary: s) (simp_all add: enqueue_def)

lemma dequeue_stopped: "terminateFlag s \<Longrightarrow> dequeue s ws = Some (shutdownObject s, s, ws)"
  by (simp add: dequeue_def)

lemma wait_for_dequeue_stopped: "terminateFlag s \<Longrightarrow> wait_for_dequeue d s w = Inr ((d, False), s)"
  by (simp add: wait_for_dequeue_def)

lemma dequeue_returns_iff:
  "dequeue s ws \<noteq> None \<longleftrightarrow>
     (\<exists>k\<le>length ws. terminateFlag (after_wakeups s ws k) \<or> q (after_wakeups s ws k) \<noteq> [])"
proof (induction ws arbitrary: s)
  case Nil
  show ?case by (simp add: dequeue_def after_wakeups_0)
next
  case (Cons w ws)
  show ?case
  proof (cases "terminateFlag s \<or> q s \<noteq> []")
    case True
    then have "dequeue s (w # ws) \<noteq> None" by (auto simp: dequeue_def)
    moreover from True
    have "terminateFlag (after_wakeups s (w # ws) 0) \<or> q (after_wakeups s (w # ws) 0) \<noteq> []"
      by (simp add: after_wakeups_0)
    ultimately show ?thesis by blast
  next
    case False
    then have deq: "dequeue s (w # ws) =
        (if terminateFlag (woken s w) then Some (shutdownObject (woken s w), woken s w, ws)
         else dequeue (woken s w) ws)"
      by (simp add: dequeue_def Let_def)
    have "dequeue s (w # ws) \<noteq> None \<longleftrightarrow> dequeue (woken s w) ws \<noteq> None"
      by (simp add: deq) (simp add: dequeue_def)
    also have "\<dots> \<longleftrightarrow> (\<exists>k\<le>length ws. terminateFlag (after_wakeups (woken s w) ws k)
                                        \<or> q (after_wakeups (woken s w) ws k) \<noteq> [])"
      by (rule Cons.IH)
    also have "\<dots> \<longleftrightarrow> (\<exists>k\<le>length (w # ws). terminateFlag (after_wakeups s (w # ws) k)
                                        \<or> q (after_wakeups s (w # ws) k) \<noteq> [])"
      using False by (simp add: ex_le_Suc after_wakeups_0 after_wakeups_Suc)
    finally show ?thesis .
  qed
qed

lemma woken_enqueues:
  "list_all is_enqueue w \<Longrightarrow>
     q (woken s w) = q s @ concat (map pushed_step w) \<and>
     terminateFlag (woken s w) = terminateFlag s"
  unfolding woken_def
proof (induction w arbitrary: s)
  case Nil
  show ?case by simp
next
  case (Cons e w)
  then obtain x where e: "e = EnvEnqueue x" by (cases e) simp_all
  from Cons.prems have "list_all is_enqueue w" by simp
  from Cons.IH [OF this, of "enqueue x s"] show ?case
    by (simp add: e enqueue_def)
qed

lemma dequeue_loop_rest:
  "dequeue_loop s ws = Some (v, s1, rest) \<Longrightarrow> length rest \<le> length ws"
proof (induction ws arbitrary: s)
  case Nil
  then show ?case by (simp split: if_splits)
next
  case (Cons w ws)
  show ?case
  proof (cases "q s = []")
    case False
    with Cons.prems show ?thesis by simp
  next
    case True
    show ?thesis
    proof (cases "terminateFlag (woken s w)")
      case True
      with \<open>q s = []\<close> Cons.prems show ?thesis by (simp add: Let_def)
    next
      case False
      with \<open>q s = []\<close> Cons.prems have "dequeue_loop (woken s w) ws = Some (v, s1, rest)"
        by (simp add: Let_def)
      from Cons.IH [OF this] show ?thesis by simp
    qed
  qed
qed

lemma dequeue_loop_fifo:
  "\<not> terminateFlag s \<Longrightarrow> list_all (list_all is_enqueue) ws \<Longrightarrow>
   dequeue_loop s ws = Some (v, s1, rest) \<Longrightarrow>
     v # q s1 = q s @ pushed (take (length ws - length rest) ws) \<and> \<not> terminateFlag s1"
proof (induction ws arbitrary: s)
  case Nil
  then show ?case by (auto simp: pushed_def split: if_splits)
next
  case (Cons w ws)
  show ?case
  proof (cases "q s = []")
    case False
    with Cons.prems show ?thesis by (auto simp: pushed_def)
  next
    case True
    from Cons.prems(2)
    have w: "list_all is_enqueue w" and ws: "list_all (list_all is_enqueue) ws"
      by simp_all
    from woken_enqueues [OF w, of s] Cons.prems(1)
    have qw: "q (woken s w) = q s @ concat (map pushed_step w)"
      and fw: "\<not> terminateFlag (woken s w)" by simp_all
    from True fw Cons.prems(3) have run: "dequeue_loop (woken s w) ws = Some (v, s1, rest)"
      by (simp add: Let_def)
    from dequeue_loop_rest [OF run] have "length rest \<le> length ws" .
    then have tk: "take (length (w # ws) - length rest) (w # ws)
                  = w # take (length ws - length rest) ws"
      by (simp add: Suc_diff_le)
    from Cons.IH [OF fw ws run] show ?thesis
      by (simp only: tk) (simp add: qw pushed_def)
  qed
qed

lemma single_consumer_fifo:
  "\<not> terminateFlag s \<Longrightarrow> list_all producers_only es \<Longrightarrow>
   single_consumer s es = Some (ins, outs, s') \<Longrightarrow>
     outs @ q s' = q s @ ins \<and> \<not> terminateFlag s'"
proof (induction es arbitrary: s ins outs)
  case Nil
  then show ?case by simp
next
  case (Cons e es)
  show ?case
  proof (cases e)
    case (Produce x)
    with Cons.prems(3) obtain ins1 where
      run: "single_consumer (enqueue x s) es = Some (ins1, outs, s')" and ins: "ins = x # ins1"
      by auto
    have "\<not> terminateFlag (enqueue x s)" using Cons.prems(1) by (simp add: enqueue_def)
    from Cons.IH [OF this _ run] Cons.prems(2) show ?thesis
      by (simp add: ins enqueue_def)
  next
    case (Consume ws)
    with Cons.prems(3) obtain v s1 rest ins1 outs1 where
      deq: "dequeue s ws = Some (v, s1, rest)" and
      run: "single_consumer s1 es = Some (ins1, outs1, s')" and
      ins: "ins = pushed (take (length ws - length rest) ws) @ ins1" and
      outs: "outs = v # outs1"
      by (auto split: option.splits)
    from deq Cons.prems(1) have loop: "dequeue_loop s ws = Some (v, s1, rest)"
      by (simp add: dequeue_def)
    from Cons.prems(2) Consume have "list_all (list_all is_enqueue) ws" by simp
    from dequeue_loop_fifo [OF Cons.prems(1) this loop]
    have hd: "v # q s1 = q s @ pushed (take (length ws - length rest) ws)"
      and f1: "\<not> terminateFlag s1" by simp_all
    from Cons.IH [OF f1 _ run] Cons.prems(2) have "outs1 @ q s' = q s1 @ ins1" by simp
    then have "outs @ q s' = (v # q s1) @ ins1" by (simp add: outs)
    then show ?thesis using Cons.IH [OF f1 _ run] Cons.prems(2) by (simp add: hd ins)
  qed
qed

lemma consume_batch:
  "\<not> terminateFlag s \<Longrightarrow>
   \<exists>s'. single_consumer s (replicate (length (q s)) (Consume [])) = Some ([], q s, s') \<and> q s' = []"
proof (induction "q s" arbitrary: s)
  case Nil
  then show ?case by simp
next
  case (Cons x xs)
  let ?s1 = "s\<lparr>q := tl (q s)\<rparr>"
  from Cons.hyps(2) have qs: "q s = x # xs" by simp
  have deq: "dequeue s [] = Some (x, ?s1, [])"
    using Cons.prems by (simp add: dequeue_def qs)
  have "xs = q ?s1" by (simp add: qs)
  from Cons.hyps(1) [OF this] Cons.prems
  obtain s' where
    "single_consumer ?s1 (replicate (length (q ?s1)) (Consume [])) = Some ([], q ?s1, s')"
    "q s' = []"
    by auto
  then show ?case
    by (simp add: qs deq pushed_def)
qed

lemma produce_batch:
  "single_consumer (enqueue_all s xs) es = Some (ins, outs, s') \<Longrightarrow>
   single_consumer s (map Produce xs @ es) = Some (xs @ ins, outs, s')"
  unfolding enqueue_all_def
  by (induction xs arbitrary: s) simp_all

section \<open>Delivery after stop\<close>

text \<open>
  C1, as the claim states it, fails: \<^verbatim>\<open>nonBlockingDequeue\<close> never reads the stop flag.
  With "X" queued and the queue then stopped, it hands out "X".
\<close>

theorem nonBlockingDequeue_after_stop_counterexample:
  "isStopped (stop (enqueue ''X'' (SafeQueueVariant_init ''S''))) \<and>
   fst (nonBlockingDequeue ''D'' (stop (enqueue ''X'' (SafeQueueVariant_init ''S''))))
     = (''X'', True)"
  by (simp add: isStopped_def nonBlockingDequeue_def stop_eq enqueue_def SafeQueueVariant_init_def)

text \<open>
  C1, amended. \<^verbatim>\<open>stop\<close> sets the flag, and on every queue whose flag is set the blocking
  \<^verbatim>\<open>dequeue\<close> returns the sentinel and the timed \<^verbatim>\<open>wait_for_dequeue\<close> returns
  (default, false), both at once and leaving every queued item where it is. The
  non-blocking \<^verbatim>\<open>nonBlockingDequeue\<close> does not look at the flag: it still returns the
  head item with true when the queue is not empty, and (default, false) when it is.
\<close>

theorem post_stop_dequeues:
  "terminateFlag (stop s0) \<and>
   (terminateFlag s \<longrightarrow>
      dequeue s ws = Some (shutdownObject s, s, ws) \<and>
      wait_for_dequeue d s w = Inr ((d, False), s) \<and>
      nonBlockingDequeue d s =
        (if q s = [] then ((d, False), s) else ((hd (q s), True), s\<lparr>q := tl (q s)\<rparr>)))"
  by (simp add: stop_eq dequeue_def wait_for_dequeue_def nonBlockingDequeue_def)

theorem post_stop_dequeues_witness:
  "terminateFlag (stop (enqueue ''X'' (SafeQueueVariant_init ''S''))) \<and>
   dequeue (stop (enqueue ''X'' (SafeQueueVariant_init ''S''))) []
     = Some (''S'', stop (enqueue ''X'' (SafeQueueVariant_init ''S'')), []) \<and>
   wait_for_dequeue ''D'' (stop (enqueue ''X'' (SafeQueueVariant_init ''S''))) ([], no_timeout)
     = Inr ((''D'', False), stop (enqueue ''X'' (SafeQueueVariant_init ''S'')))"
  using post_stop_dequeues [of "enqueue ''X'' (SafeQueueVariant_init ''S'')"
      "stop (enqueue ''X'' (SafeQueueVariant_init ''S''))" "[]" "''D''" "([], no_timeout)"]
  by (simp add: stop_eq enqueue_def SafeQueueVariant_init_def)

section \<open>The timed dequeue\<close>

text \<open>
  C2. \<^verbatim>\<open>wait_for_dequeue\<close> waits once and trusts the status of \<^verbatim>\<open>wait_for\<close>: it does not
  look at the queue or at the stop flag after the wakeup. On a fresh, empty queue a
  spurious wakeup, a \<^verbatim>\<open>wakeWaiters\<close> or a \<^verbatim>\<open>stop\<close> by another thread all take it to
  \<^verbatim>\<open>q.front()\<close> on the empty queue.
\<close>

theorem wait_for_dequeue_front_of_empty:
  "wait_for_dequeue ''D'' (SafeQueueVariant_init ''S'') ([], no_timeout)
     = Inl front_of_empty_queue \<and>
   wait_for_dequeue ''D'' (SafeQueueVariant_init ''S'') ([EnvWake], no_timeout)
     = Inl front_of_empty_queue \<and>
   wait_for_dequeue ''D'' (SafeQueueVariant_init ''S'') ([EnvStop], no_timeout)
     = Inl front_of_empty_queue"
  by (simp add: wait_for_dequeue_def woken_def SafeQueueVariant_init_def stop_eq
      wakeWaiters_def)

text \<open>
  C3. \<^verbatim>\<open>wait_for_dequeue\<close> waits without looking at the queue first. With "A" already
  queued on an unstopped queue and no notification during the wait, it times out and
  returns (default, false); "A" stays queued.
\<close>

theorem wait_for_dequeue_ignores_queued_item:
  "wait_for_dequeue ''D'' (enqueue ''A'' (SafeQueueVariant_init ''S'')) ([], timeout)
     = Inr ((''D'', False), enqueue ''A'' (SafeQueueVariant_init ''S'')) \<and>
   q (enqueue ''A'' (SafeQueueVariant_init ''S'')) = [''A''] \<and>
   \<not> isStopped (enqueue ''A'' (SafeQueueVariant_init ''S''))"
  by (simp add: wait_for_dequeue_def woken_def SafeQueueVariant_init_def enqueue_def
      isStopped_def)

section \<open>The blocking dequeue\<close>

text \<open>
  C4. \<^verbatim>\<open>dequeue()\<close> on a stopped queue returns the sentinel at once, using no wakeup and
  changing nothing. On an unstopped queue with an item it returns the head and removes
  it, again without waiting. On an unstopped empty queue it blocks: with no wakeup it
  never returns; after a wakeup it first looks at the stop flag and returns the
  sentinel when the flag is set (also when an item arrived as well), and otherwise
  goes on exactly as a fresh call on the state it woke up in, so it waits again when
  the queue is still empty and delivers the head when it is not. Altogether the call
  returns exactly when, at the call or after one of its wakeups, the queue is stopped
  or holds an item.
\<close>

theorem dequeue_contract:
  "(terminateFlag s \<longrightarrow> dequeue s ws = Some (shutdownObject s, s, ws)) \<and>
   (\<not> terminateFlag s \<and> q s \<noteq> [] \<longrightarrow>
      dequeue s ws = Some (hd (q s), s\<lparr>q := tl (q s)\<rparr>, ws)) \<and>
   (\<not> terminateFlag s \<and> q s = [] \<longrightarrow>
      dequeue s [] = None \<and>
      dequeue s (w # ws) =
        (if terminateFlag (woken s w)
         then Some (shutdownObject (woken s w), woken s w, ws)
         else dequeue (woken s w) ws)) \<and>
   (dequeue s ws \<noteq> None \<longleftrightarrow>
      (\<exists>k\<le>length ws. terminateFlag (after_wakeups s ws k) \<or> q (after_wakeups s ws k) \<noteq> []))"
proof -
  have "terminateFlag s \<longrightarrow> dequeue s ws = Some (shutdownObject s, s, ws)"
    by (simp add: dequeue_def)
  moreover have "\<not> terminateFlag s \<and> q s \<noteq> [] \<longrightarrow>
      dequeue s ws = Some (hd (q s), s\<lparr>q := tl (q s)\<rparr>, ws)"
    by (simp add: dequeue_def)
  moreover have "\<not> terminateFlag s \<and> q s = [] \<longrightarrow>
      dequeue s [] = None \<and>
      dequeue s (w # ws) =
        (if terminateFlag (woken s w)
         then Some (shutdownObject (woken s w), woken s w, ws)
         else dequeue (woken s w) ws)"
    by (simp add: dequeue_def Let_def)
  moreover note dequeue_returns_iff [of s ws]
  ultimately show ?thesis by blast
qed

theorem dequeue_contract_witness:
  "dequeue (stop (enqueue ''X'' (SafeQueueVariant_init ''S''))) [[EnvEnqueue ''Y'']]
     = Some (''S'', stop (enqueue ''X'' (SafeQueueVariant_init ''S'')), [[EnvEnqueue ''Y'']]) \<and>
   dequeue (enqueue ''X'' (SafeQueueVariant_init ''S'')) []
     = Some (''X'', (enqueue ''X'' (SafeQueueVariant_init ''S''))\<lparr>q := []\<rparr>, []) \<and>
   dequeue (SafeQueueVariant_init ''S'') [] = None \<and>
   dequeue (SafeQueueVariant_init ''S'') [[EnvEnqueue ''X'', EnvStop], []]
     = Some (''S'', stop (enqueue ''X'' (SafeQueueVariant_init ''S'')), [[]]) \<and>
   dequeue (SafeQueueVariant_init ''S'') [[], [EnvEnqueue ''X'']]
     = Some (''X'', (enqueue ''X'' (SafeQueueVariant_init ''S''))\<lparr>q := []\<rparr>, [])"
proof -
  let ?i = "SafeQueueVariant_init ''S''"
  have i: "\<not> terminateFlag ?i \<and> q ?i = []"
    by (simp add: SafeQueueVariant_init_def)
  have x: "\<not> terminateFlag (enqueue ''X'' ?i) \<and> q (enqueue ''X'' ?i) \<noteq> []"
    by (simp add: SafeQueueVariant_init_def enqueue_def)
  have sx: "terminateFlag (stop (enqueue ''X'' ?i))"
    by (simp add: stop_eq)
  have w1: "woken ?i [EnvEnqueue ''X'', EnvStop] = stop (enqueue ''X'' ?i)"
    by (simp add: woken_def)
  have w2: "woken ?i [] = ?i"
    by (simp add: woken_def)
  have w3: "woken ?i [EnvEnqueue ''X''] = enqueue ''X'' ?i"
    by (simp add: woken_def)
  have tlx: "tl (q (enqueue ''X'' ?i)) = [] \<and> hd (q (enqueue ''X'' ?i)) = ''X''"
    by (simp add: SafeQueueVariant_init_def enqueue_def)
  have sent: "shutdownObject (stop (enqueue ''X'' ?i)) = ''S''"
    by (simp add: stop_eq SafeQueueVariant_init_def enqueue_def)
  show ?thesis
    using dequeue_contract [of "stop (enqueue ''X'' ?i)" "[[EnvEnqueue ''Y'']]" "[]"]
      dequeue_contract [of "enqueue ''X'' ?i" "[]" "[]"]
      dequeue_contract [of ?i "[[]]" "[EnvEnqueue ''X'', EnvStop]"]
      dequeue_contract [of ?i "[[EnvEnqueue ''X'']]" "[]"]
      dequeue_contract [of ?i "[]" "[EnvEnqueue ''X'']"]
    by (simp add: i x sx w1 w2 w3 tlx sent)
qed

section \<open>FIFO order\<close>

text \<open>
  C5. In every history of an unstopped queue in which the other threads only enqueue
  and one consumer calls \<^verbatim>\<open>dequeue()\<close>, the values the consumer received, followed by
  what is still queued, are the values queued at the start followed by the values
  enqueued, in the order of the enqueues: the consumer receives the items in enqueue
  order, none skipped and none repeated. And enqueueing the items of any list on a
  fresh queue and then calling \<^verbatim>\<open>dequeue()\<close> once per item returns: the calls deliver
  exactly that list, in order, and leave the queue empty; for "A", "B", "C" the three
  calls return "A", "B", "C".
\<close>

theorem fifo_order:
  "(\<not> terminateFlag s \<and> list_all producers_only es \<and>
    single_consumer s es = Some (ins, outs, s') \<longrightarrow> outs @ q s' = q s @ ins) \<and>
   (\<exists>s1. single_consumer (SafeQueueVariant_init a)
            (map Produce xs @ replicate (length xs) (Consume [])) = Some (xs, xs, s1) \<and>
          q s1 = [])"
proof -
  let ?s = "enqueue_all (SafeQueueVariant_init a) xs"
  have qs: "q ?s = xs"
    by (simp add: q_enqueue_all SafeQueueVariant_init_def)
  have "\<not> terminateFlag ?s"
    by (simp add: flag_enqueue_all SafeQueueVariant_init_def)
  from consume_batch [OF this] obtain s1 where
    "single_consumer ?s (replicate (length xs) (Consume [])) = Some ([], xs, s1)" "q s1 = []"
    by (auto simp: qs)
  with produce_batch [of "SafeQueueVariant_init a" xs _ "[]" xs s1]
  have "single_consumer (SafeQueueVariant_init a)
          (map Produce xs @ replicate (length xs) (Consume [])) = Some (xs, xs, s1) \<and> q s1 = []"
    by simp
  then show ?thesis
    using single_consumer_fifo [of s es ins outs s'] by blast
qed

theorem fifo_order_witness:
  "(\<exists>s1. single_consumer (SafeQueueVariant_init ''S'')
            [Produce ''A'', Produce ''B'', Produce ''C'', Consume [], Consume [], Consume []]
          = Some ([''A'', ''B'', ''C''], [''A'', ''B'', ''C''], s1) \<and> q s1 = []) \<and>
   single_consumer (SafeQueueVariant_init ''S'')
     [Consume [[], [EnvEnqueue ''A'', EnvEnqueue ''B''], [EnvEnqueue ''Z'']],
      Produce ''C'', Consume [[EnvEnqueue ''Y'']]]
     = Some ([''A'', ''B'', ''C''], [''A'', ''B''],
         \<lparr>shutdownObject = ''S'', terminateFlag = False, q = [''C''],
          c = [notify_one, notify_one, notify_one]\<rparr>) \<and>
   [''A'', ''B''] @ [''C''] = q (SafeQueueVariant_init ''S'') @ [''A'', ''B'', ''C'']"
proof -
  let ?es = "[Consume [[], [EnvEnqueue ''A'', EnvEnqueue ''B''], [EnvEnqueue ''Z'']],
      Produce ''C'', Consume [[EnvEnqueue ''Y'']]]"
  let ?end = "\<lparr>shutdownObject = ''S'', terminateFlag = False, q = [''C''],
          c = [notify_one, notify_one, notify_one]\<rparr>"
  have run: "single_consumer (SafeQueueVariant_init ''S'') ?es
     = Some ([''A'', ''B'', ''C''], [''A'', ''B''], ?end)"
    by (simp add: SafeQueueVariant_init_def dequeue_def woken_def enqueue_def pushed_def)
  have pre: "\<not> terminateFlag (SafeQueueVariant_init ''S'') \<and> list_all producers_only ?es"
    by (simp add: SafeQueueVariant_init_def)
  from fifo_order [of "SafeQueueVariant_init ''S''" ?es "[''A'', ''B'', ''C'']"
      "[''A'', ''B'']" ?end "''S''" "[''A'', ''B'', ''C'']"] run pre
  show ?thesis by simp
qed

section \<open>The stop flag\<close>

text \<open>
  C6. On a queue whose termination flag is set, every public member function returns
  and leaves the flag set: \<^verbatim>\<open>enqueue\<close>, the three dequeues, \<^verbatim>\<open>clear\<close>, \<^verbatim>\<open>wakeWaiters\<close>,
  both \<^verbatim>\<open>wait\<close>s, \<^verbatim>\<open>stop\<close> and the observers, and so does every step of another
  thread; hence any sequence of calls on a stopped queue runs to its end with the flag
  still set. A further \<^verbatim>\<open>stop\<close> only issues its two notifications: the flag, the
  sentinel and the queued items are unchanged, and \<^verbatim>\<open>isStopped\<close>, \<^verbatim>\<open>size\<close> and
  \<^verbatim>\<open>isEmpty\<close> answer as before.
\<close>

theorem terminateFlag_permanent:
  "terminateFlag s \<Longrightarrow>
     (\<exists>s'. perform d s k = Some s' \<and> terminateFlag s') \<and>
     (\<exists>s'. perform_all d s ks = Some s' \<and> terminateFlag s') \<and>
     terminateFlag (interfere s e) \<and>
     stop s = s\<lparr>c := c s @ [notify_all, notify_all]\<rparr> \<and>
     isStopped (stop s) = isStopped s \<and>
     size_q (stop s) = size_q s \<and>
     isEmpty (stop s) = isEmpty s \<and>
     q (stop s) = q s \<and>
     shutdownObject (stop s) = shutdownObject s"
proof -
  assume stopped: "terminateFlag s"
  have step: "\<exists>s'. perform d s0 k0 = Some s' \<and> terminateFlag s'"
    if "terminateFlag s0" for s0 :: "'a SafeQueueVariant" and k0
    using that
    by (cases k0)
      (simp_all add: enqueue_def dequeue_def wait_for_dequeue_def nonBlockingDequeue_def
        clear_def wakeWaiters_def wait_def wait_timeout_def stop_eq)
  have run: "\<exists>s'. perform_all d s0 ks = Some s' \<and> terminateFlag s'"
    if "terminateFlag s0" for s0 :: "'a SafeQueueVariant"
    using that
  proof (induction ks arbitrary: s0)
    case Nil
    then show ?case by simp
  next
    case (Cons k0 ks)
    from step [OF Cons.prems] obtain s1
      where s1: "perform d s0 k0 = Some s1" "terminateFlag s1" by blast
    from Cons.IH [OF s1(2)] s1(1) show ?case by simp
  qed
  have again: "stop s = s\<lparr>c := c s @ [notify_all, notify_all]\<rparr>"
    using stopped by (simp add: stop_eq)
  show ?thesis
    using step [OF stopped] run [OF stopped] interfere_flag [OF stopped] stopped
    by (simp add: again isStopped_def size_q_def isEmpty_def)
qed

theorem terminateFlag_permanent_witness:
  "terminateFlag (stop (enqueue ''X'' (SafeQueueVariant_init ''S''))) \<and>
   (\<exists>s'. perform_all ''D'' (stop (enqueue ''X'' (SafeQueueVariant_init ''S'')))
            [Enqueue ''Y'', Dequeue [], WaitForDequeue ([], no_timeout), NonBlockingDequeue,
             Clear, WakeWaiters, Wait None, WaitTimeout ([], timeout), Stop, IsStopped,
             Size, IsEmpty] = Some s' \<and> terminateFlag s') \<and>
   q (stop (stop (enqueue ''X'' (SafeQueueVariant_init ''S'')))) = [''X'']"
proof -
  have sx: "terminateFlag (stop (enqueue ''X'' (SafeQueueVariant_init ''S'')))"
    by (simp add: stop_eq)
  show ?thesis
    using terminateFlag_permanent [OF sx, of "''D''" Stop
        "[Enqueue ''Y'', Dequeue [], WaitForDequeue ([], no_timeout), NonBlockingDequeue,
          Clear, WakeWaiters, Wait None, WaitTimeout ([], timeout), Stop, IsStopped,
          Size, IsEmpty]" EnvStop]
    by (simp add: stop_eq enqueue_def SafeQueueVariant_init_def)
qed

section \<open>Size accounting\<close>

text \<open>
  C7, as the claim states it, fails in two places. \<^verbatim>\<open>size()\<close> converts \<^verbatim>\<open>q.size()\<close> to
  \<^verbatim>\<open>unsigned int\<close>: after 4294967296 enqueues on a fresh queue it returns 0. And a
  queued item is delivered after \<^verbatim>\<open>stop()\<close>: with "X" enqueued and the queue stopped,
  \<^verbatim>\<open>nonBlockingDequeue\<close> returns "X".
\<close>

theorem size_wraps_counterexample:
  "length (replicate 4294967296 ''X'') = 4294967296 \<and>
   unat (size_q (enqueue_all (SafeQueueVariant_init ''S'') (replicate 4294967296 ''X''))) = 0 \<and>
   fst (nonBlockingDequeue ''D'' (stop (enqueue_all (SafeQueueVariant_init ''S'') [''X''])))
     = (''X'', True)"
  by (simp add: size_q_def q_enqueue_all SafeQueueVariant_init_def nonBlockingDequeue_def
      stop_eq)

text \<open>
  C7, amended. After k calls of \<^verbatim>\<open>enqueue\<close> on a fresh queue, made one after the other
  with no dequeue in between, \<^verbatim>\<open>size()\<close> returns k modulo \<open>2^32\<close>, which is k when k is
  below \<open>2^32\<close>. \<^verbatim>\<open>stop()\<close> then removes nothing: the queued items are the same and
  \<^verbatim>\<open>size()\<close> returns what it returned before. A blocking or timed dequeue on the
  stopped queue returns the sentinel or (default, false) and leaves the state, so also
  the queued items, as it was. The non-blocking dequeue does not look at the stop flag:
  on the stopped queue it still removes and returns the head item when there is one.
\<close>

theorem stop_does_not_drain:
  "unat (size_q (enqueue_all (SafeQueueVariant_init a) xs)) = length xs mod 2 ^ 32 \<and>
   (length xs < 2 ^ 32 \<longrightarrow>
      unat (size_q (enqueue_all (SafeQueueVariant_init a) xs)) = length xs \<and>
      unat (size_q (stop (enqueue_all (SafeQueueVariant_init a) xs))) = length xs) \<and>
   q (stop (enqueue_all (SafeQueueVariant_init a) xs)) = xs \<and>
   size_q (stop (enqueue_all (SafeQueueVariant_init a) xs))
     = size_q (enqueue_all (SafeQueueVariant_init a) xs) \<and>
   dequeue (stop (enqueue_all (SafeQueueVariant_init a) xs)) ws
     = Some (a, stop (enqueue_all (SafeQueueVariant_init a) xs), ws) \<and>
   wait_for_dequeue d (stop (enqueue_all (SafeQueueVariant_init a) xs)) w
     = Inr ((d, False), stop (enqueue_all (SafeQueueVariant_init a) xs)) \<and>
   nonBlockingDequeue d (stop (enqueue_all (SafeQueueVariant_init a) xs))
     = (if xs = [] then ((d, False), stop (enqueue_all (SafeQueueVariant_init a) xs))
        else ((hd xs, True), (stop (enqueue_all (SafeQueueVariant_init a) xs))\<lparr>q := tl xs\<rparr>))"
proof -
  let ?s = "enqueue_all (SafeQueueVariant_init a) xs"
  have qs: "q ?s = xs"
    by (simp add: q_enqueue_all SafeQueueVariant_init_def)
  have qstop: "q (stop ?s) = xs"
    by (simp add: stop_eq qs)
  have sent: "shutdownObject (stop ?s) = a"
    by (simp add: stop_eq sentinel_enqueue_all SafeQueueVariant_init_def)
  have flag: "terminateFlag (stop ?s)"
    by (simp add: stop_eq)
  have wrap: "unat (of_nat (length xs) :: 32 word) = length xs mod 2 ^ 32"
    by (simp add: unat_of_nat)
  have "unat (size_q ?s) = length xs mod 2 ^ 32"
    by (simp add: size_q_def qs wrap)
  moreover have "unat (size_q ?s) = length xs \<and> unat (size_q (stop ?s)) = length xs"
    if "length xs < 2 ^ 32"
    using that by (simp add: size_q_def qs qstop wrap)
  moreover note qstop
  moreover have "size_q (stop ?s) = size_q ?s"
    by (simp add: size_q_def qs qstop)
  moreover have "dequeue (stop ?s) ws = Some (a, stop ?s, ws)"
    using dequeue_stopped [OF flag, of ws] by (simp add: sent)
  moreover have "wait_for_dequeue d (stop ?s) w = Inr ((d, False), stop ?s)"
    by (rule wait_for_dequeue_stopped [OF flag])
  moreover have "nonBlockingDequeue d (stop ?s)
     = (if xs = [] then ((d, False), stop ?s) else ((hd xs, True), (stop ?s)\<lparr>q := tl xs\<rparr>))"
    by (simp add: nonBlockingDequeue_def qstop)
  ultimately show ?thesis by blast
qed

theorem stop_does_not_drain_witness:
  "unat (size_q (enqueue_all (SafeQueueVariant_init ''S'') [''A'', ''B'', ''C''])) = 3 \<and>
   q (stop (enqueue_all (SafeQueueVariant_init ''S'') [''A'', ''B'', ''C'']))
     = [''A'', ''B'', ''C''] \<and>
   unat (size_q (stop (enqueue_all (SafeQueueVariant_init ''S'') [''A'', ''B'', ''C'']))) = 3 \<and>
   dequeue (stop (enqueue_all (SafeQueueVariant_init ''S'') [''A'', ''B'', ''C''])) []
     = Some (''S'', stop (enqueue_all (SafeQueueVariant_init ''S'') [''A'', ''B'', ''C'']), [])"
proof -
  have len: "length [''A'', ''B'', ''C''] < 2 ^ 32" by simp
  show ?thesis
    using stop_does_not_drain [of "''S''" "[''A'', ''B'', ''C'']" "[]" "''D''" "([], timeout)"] len
    by simp
qed

section \<open>Destruction\<close>

text \<open>
  C10. The destructor is a call of \<^verbatim>\<open>stop()\<close>: after it the termination flag is set,
  whether or not \<^verbatim>\<open>stop()\<close> was called before, \<^verbatim>\<open>notify_all\<close> has been issued on the
  condition variable, and the queued items are untouched. A caller blocked in
  \<^verbatim>\<open>dequeue()\<close> on the empty, unstopped queue that is woken by it returns the sentinel.
\<close>

theorem destructor_stops:
  "destructor s = stop s \<and>
   terminateFlag (destructor s) \<and>
   c (destructor s) = c s @ [notify_all, notify_all] \<and>
   q (destructor s) = q s \<and>
   (\<not> terminateFlag s \<and> q s = [] \<longrightarrow>
      woken s [EnvStop] = destructor s \<and>
      dequeue s ([EnvStop] # ws) = Some (shutdownObject s, destructor s, ws))"
  by (simp add: destructor_def stop_eq dequeue_def woken_def Let_def)

theorem destructor_stops_witness:
  "terminateFlag (destructor (SafeQueueVariant_init ''S'')) \<and>
   dequeue (SafeQueueVariant_init ''S'') [[EnvStop]]
     = Some (''S'', destructor (SafeQueueVariant_init ''S''), [])"
proof -
  have i: "\<not> terminateFlag (SafeQueueVariant_init ''S'') \<and> q (SafeQueueVariant_init ''S'') = []"
    by (simp add: SafeQueueVariant_init_def)
  have sent: "shutdownObject (SafeQueueVariant_init ''S'') = ''S''"
    by (simp add: SafeQueueVariant_init_def)
  from destructor_stops [of "SafeQueueVariant_init ''S''" "[]"]
  have a: "terminateFlag (destructor (SafeQueueVariant_init ''S''))"
    by blast
  from destructor_stops [of "SafeQueueVariant_init ''S''" "[]"] i
  have b: "dequeue (SafeQueueVariant_init ''S'') [[EnvStop]]
     = Some (shutdownObject (SafeQueueVariant_init ''S''),
             destructor (SafeQueueVariant_init ''S''), [])"
    by blast
  show ?thesis
    using a b by (simp only: sent)
qed

section \<open>Round-robin submission\<close>











































section \<open>Startup of the pool\<close>

lemma startup_inv_init: "startup_inv n T (startup_init T)"
  by (simp add: startup_inv_def startup_init_def)

lemma not_guard_cases:
  "\<not> in_guard k \<Longrightarrow> k = AtLock \<or> k = ReturnedAsInitializer \<or> k = ReturnedOnFlag"
  by (cases k) simp_all

lemma startup_invD:
  assumes "startup_inv n T p"
  shows "length (callers p) = T"
    and "\<And>u. u < T \<Longrightarrow> in_guard (callers p ! u) = (tpLock p = Some u)"
    and "\<And>u. tpLock p = Some u \<Longrightarrow> u < T"
    and "\<And>u i. u < T \<Longrightarrow> callers p ! u = Spawning i \<Longrightarrow>
           \<not> isStarted p \<and> i \<le> n \<and> queueMonitors p = [0..<i]"
    and "isStarted p \<Longrightarrow>
           queueMonitors p = [0..<n] \<and> (\<exists>u<T. callers p ! u = ReturnedAsInitializer)"
    and "\<And>u. \<not> isStarted p \<Longrightarrow> u < T \<Longrightarrow> \<not> has_returned (callers p ! u)"
    and "\<not> isStarted p \<Longrightarrow> (\<forall>u<T. \<not> is_initializer (callers p ! u)) \<Longrightarrow>
           queueMonitors p = []"
    and "\<And>u v. u < T \<Longrightarrow> v < T \<Longrightarrow> is_initializer (callers p ! u) \<Longrightarrow>
           is_initializer (callers p ! v) \<Longrightarrow> u = v"
  using assms unfolding startup_inv_def by blast+

lemma startup_invI:
  assumes "length (callers p) = T"
    and "\<And>u. u < T \<Longrightarrow> in_guard (callers p ! u) = (tpLock p = Some u)"
    and "\<And>u. tpLock p = Some u \<Longrightarrow> u < T"
    and "\<And>u i. u < T \<Longrightarrow> callers p ! u = Spawning i \<Longrightarrow>
           \<not> isStarted p \<and> i \<le> n \<and> queueMonitors p = [0..<i]"
    and "isStarted p \<Longrightarrow>
           queueMonitors p = [0..<n] \<and> (\<exists>u<T. callers p ! u = ReturnedAsInitializer)"
    and "\<And>u. \<not> isStarted p \<Longrightarrow> u < T \<Longrightarrow> \<not> has_returned (callers p ! u)"
    and "\<not> isStarted p \<Longrightarrow> (\<forall>u<T. \<not> is_initializer (callers p ! u)) \<Longrightarrow>
           queueMonitors p = []"
    and "\<And>u v. u < T \<Longrightarrow> v < T \<Longrightarrow> is_initializer (callers p ! u) \<Longrightarrow>
           is_initializer (callers p ! v) \<Longrightarrow> u = v"
  shows "startup_inv n T p"
  unfolding startup_inv_def using assms by blast


lemma startup_inv_step:
  assumes inv: "startup_inv n T p"
  shows "startup_inv n T (startup_step n p t)"
proof (cases "t < length (callers p)")
  case False
  with assms show ?thesis by (simp add: startup_step_def)
next
  case True
  note I = startup_invD [OF inv]
  from True I(1) have tT: "t < T" by simp
  show ?thesis
  proof (cases "callers p ! t")
    case AtLock
    show ?thesis
    proof (cases "tpLock p")
      case (Some u)
      with AtLock True show ?thesis using inv by (simp add: startup_step_def)
    next
      case None
      have st: "startup_step n p t = p\<lparr>tpLock := Some t, callers := (callers p)[t := AtCheck]\<rparr>"
        using AtLock True None by (simp add: startup_step_def)
      have free: "\<not> in_guard (callers p ! u)" if "u < T" for u
        using I(2) [OF that] None by simp
      show ?thesis
        unfolding st
      proof (rule startup_invI, goal_cases)
        case 1
        show ?case using I(1) by simp
      next
        case (2 u)
        then show ?case using free [of u] I(1) tT by (simp add: nth_list_update)
      next
        case (3 u)
        then show ?case using tT by simp
      next
        case (4 u i)
        then show ?case using I(4) [of u i] I(1) tT by (simp add: nth_list_update split: if_splits)
      next
        case 5
        then have s: "isStarted p" by simp
        from I(5) [OF s] obtain u where u: "u < T" "callers p ! u = ReturnedAsInitializer"
          by blast
        with AtLock have "u \<noteq> t" by auto
        with u I(1) have "(callers p)[t := AtCheck] ! u = ReturnedAsInitializer" by simp
        with I(5) [OF s] u(1) show ?case by auto
      next
        case (6 u)
        then show ?case using I(6) [of u] I(1) tT by (simp add: nth_list_update)
      next
        case 7
        then have ns: "\<not> isStarted p" by simp
        have "\<not> is_initializer (callers p ! u)" if "u < T" for u
          using 7(2) [rule_format, OF that] that I(1) tT AtLock
          by (cases "u = t") (simp_all add: nth_list_update)
        with I(7) [OF ns] show ?case by simp
      next
        case (8 u v)
        then show ?case using I(8) [of u v] I(1) tT
          by (simp add: nth_list_update split: if_splits)
      qed
    qed
  next
    case AtCheck
    then have g: "in_guard (callers p ! t)" by simp
    from I(2) [OF tT] g have lock: "tpLock p = Some t" by simp
    have out: "\<not> in_guard (callers p ! u)" if "u < T" "u \<noteq> t" for u
      using I(2) [OF that(1)] lock that(2) by simp
    show ?thesis
    proof (cases "isStarted p")
      case started: True
      have st: "startup_step n p t
                  = p\<lparr>tpLock := None, callers := (callers p)[t := ReturnedOnFlag]\<rparr>"
        using AtCheck True started by (simp add: startup_step_def)
      show ?thesis
        unfolding st
      proof (rule startup_invI, goal_cases)
        case 1
        show ?case using I(1) by simp
      next
        case (2 u)
        then show ?case using out [of u] I(1) tT by (simp add: nth_list_update)
      next
        case (3 u)
        then show ?case by simp
      next
        case (4 u i)
        then show ?case using I(4) [of u i] I(1) tT by (simp add: nth_list_update split: if_splits)
      next
        case 5
        from I(5) [OF started] obtain u where u: "u < T" "callers p ! u = ReturnedAsInitializer"
          by blast
        with AtCheck have "u \<noteq> t" by auto
        with u I(1) have "(callers p)[t := ReturnedOnFlag] ! u = ReturnedAsInitializer" by simp
        with I(5) [OF started] u(1) show ?case by auto
      next
        case (6 u)
        then show ?case using started by simp
      next
        case 7
        then show ?case using started by simp
      next
        case (8 u v)
        then show ?case using I(8) [of u v] I(1) tT
          by (simp add: nth_list_update split: if_splits)
      qed
    next
      case ns: False
      have st: "startup_step n p t = p\<lparr>callers := (callers p)[t := Spawning 0]\<rparr>"
        using AtCheck True ns by (simp add: startup_step_def)
      have others: "\<not> is_initializer (callers p ! u)" if "u < T" for u
      proof (cases "u = t")
        case True
        with AtCheck show ?thesis by simp
      next
        case ne: False
        from not_guard_cases [OF out [OF that ne]] I(6) [OF ns that] show ?thesis
          by auto
      qed
      with I(7) [OF ns] have empty: "queueMonitors p = []"
        by simp
      show ?thesis
        unfolding st
      proof (rule startup_invI, goal_cases)
        case 1
        show ?case using I(1) by simp
      next
        case (2 u)
        then show ?case using I(2) [of u] lock I(1) tT by (simp add: nth_list_update)
      next
        case (3 u)
        then show ?case using I(3) [of u] by simp
      next
        case (4 u i)
        then show ?case using others [of u] I(1) tT ns empty
          by (simp add: nth_list_update split: if_splits)
      next
        case 5
        then show ?case using ns by simp
      next
        case (6 u)
        then show ?case using I(6) [of u] I(1) tT by (simp add: nth_list_update)
      next
        case 7
        then show ?case using empty by simp
      next
        case (8 u v)
        then show ?case using others [of u] others [of v] I(1) tT
          by (simp add: nth_list_update split: if_splits)
      qed
    qed
  next
    case (Spawning i)
    then have g: "in_guard (callers p ! t)" by simp
    from I(2) [OF tT] g have lock: "tpLock p = Some t" by simp
    have out: "\<not> in_guard (callers p ! u)" if "u < T" "u \<noteq> t" for u
      using I(2) [OF that(1)] lock that(2) by simp
    from I(4) [OF tT Spawning]
    have ns: "\<not> isStarted p" and le: "i \<le> n" and mon: "queueMonitors p = [0..<i]"
      by simp_all
    have others: "\<not> is_initializer (callers p ! u)" if "u < T" "u \<noteq> t" for u
      using not_guard_cases [OF out [OF that]] I(6) [OF ns that(1)] by auto
    show ?thesis
    proof (cases "i < n")
      case less: True
      have st: "startup_step n p t
                  = p\<lparr>queueMonitors := queueMonitors p @ [i],
                      callers := (callers p)[t := Spawning (Suc i)]\<rparr>"
        using Spawning True less by (simp add: startup_step_def)
      have mon': "queueMonitors p @ [i] = [0..<Suc i]"
        by (simp add: mon)
      show ?thesis
        unfolding st
      proof (rule startup_invI, goal_cases)
        case 1
        show ?case using I(1) by simp
      next
        case (2 u)
        then show ?case using I(2) [of u] lock I(1) tT by (simp add: nth_list_update)
      next
        case (3 u)
        then show ?case using I(3) [of u] by simp
      next
        case (4 u j)
        then show ?case using others [of u] I(1) tT ns less mon'
          by (auto simp: nth_list_update split: if_splits)
      next
        case 5
        then show ?case using ns by simp
      next
        case (6 u)
        then show ?case using I(6) [of u] I(1) tT by (simp add: nth_list_update)
      next
        case 7
        from 7(2) [rule_format, OF tT] I(1) tT show ?case by simp
      next
        case (8 u v)
        then show ?case using others [of u] others [of v] I(1) tT
          by (simp add: nth_list_update split: if_splits)
      qed
    next
      case False
      with le have eq: "i = n" by simp
      have st: "startup_step n p t
                  = p\<lparr>isStarted := True, tpLock := None,
                      callers := (callers p)[t := ReturnedAsInitializer]\<rparr>"
        using Spawning True False by (simp add: startup_step_def)
      show ?thesis
        unfolding st
      proof (rule startup_invI, goal_cases)
        case 1
        show ?case using I(1) by simp
      next
        case (2 u)
        then show ?case using out [of u] I(1) tT by (simp add: nth_list_update)
      next
        case (3 u)
        then show ?case by simp
      next
        case (4 u j)
        then show ?case using others [of u] I(1) tT
          by (simp add: nth_list_update split: if_splits)
      next
        case 5
        have "(callers p)[t := ReturnedAsInitializer] ! t = ReturnedAsInitializer"
          using True by simp
        with tT show ?case using mon eq by auto
      next
        case (6 u)
        then show ?case by simp
      next
        case 7
        then show ?case by simp
      next
        case (8 u v)
        then show ?case using others [of u] others [of v] I(1) tT
          by (simp add: nth_list_update split: if_splits)
      qed
    qed
  next
    case ReturnedAsInitializer
    with True inv show ?thesis by (simp add: startup_step_def)
  next
    case ReturnedOnFlag
    with True inv show ?thesis by (simp add: startup_step_def)
  qed
qed

lemma startup_inv_run: "startup_inv n T p \<Longrightarrow> startup_inv n T (startup_run n p sched)"
  unfolding startup_run_def
  by (induction sched arbitrary: p) (simp_all add: startup_inv_step)

lemma first_caller_init:
  assumes "t0 < T"
  shows "first_caller_inv T t0 (startup_step n (startup_init T) t0)"
proof -
  have st: "startup_step n (startup_init T) t0
     = \<lparr>tpLock = Some t0, isStarted = False, queueMonitors = [],
        callers = (replicate T AtLock)[t0 := AtCheck]\<rparr>"
    using assms by (simp add: startup_step_def startup_init_def)
  have "\<not> is_initializer ((replicate T AtLock)[t0 := AtCheck] ! t)" if "t < T" for t
    using that assms by (simp add: nth_list_update)
  then show ?thesis
    unfolding st first_caller_inv_def by simp
qed

lemma first_caller_step:
  assumes inv: "startup_inv n T p" and fc: "first_caller_inv T t0 p"
  shows "first_caller_inv T t0 (startup_step n p t)"
proof (cases "t < length (callers p)")
  case False
  with fc show ?thesis by (simp add: startup_step_def)
next
  case True
  note I = startup_invD [OF inv]
  from True I(1) have tT: "t < T" by simp
  from fc have only: "\<And>u. u < T \<Longrightarrow> is_initializer (callers p ! u) \<Longrightarrow> u = t0"
    and held: "\<not> isStarted p \<Longrightarrow> tpLock p = Some t0"
    by (simp_all add: first_caller_inv_def)
  show ?thesis
  proof (cases "callers p ! t")
    case AtLock
    show ?thesis
    proof (cases "tpLock p")
      case (Some u)
      with AtLock True fc show ?thesis by (simp add: startup_step_def)
    next
      case None
      with held have started: "isStarted p" by auto
      have st: "startup_step n p t = p\<lparr>tpLock := Some t, callers := (callers p)[t := AtCheck]\<rparr>"
        using AtLock True None by (simp add: startup_step_def)
      have "u = t0" if "u < T" "is_initializer ((callers p)[t := AtCheck] ! u)" for u
        using that only [of u] I(1) tT by (simp add: nth_list_update split: if_splits)
      then show ?thesis
        unfolding st first_caller_inv_def using started by simp
    qed
  next
    case AtCheck
    then have g: "in_guard (callers p ! t)" by simp
    from I(2) [OF tT] g have lock: "tpLock p = Some t" by simp
    show ?thesis
    proof (cases "isStarted p")
      case True
      have st: "startup_step n p t
                  = p\<lparr>tpLock := None, callers := (callers p)[t := ReturnedOnFlag]\<rparr>"
        using AtCheck \<open>t < length (callers p)\<close> True by (simp add: startup_step_def)
      have "u = t0" if "u < T" "is_initializer ((callers p)[t := ReturnedOnFlag] ! u)" for u
        using that only [of u] I(1) tT by (simp add: nth_list_update split: if_splits)
      then show ?thesis
        unfolding st first_caller_inv_def using True by simp
    next
      case False
      with held lock have t0: "t = t0" by simp
      have st: "startup_step n p t = p\<lparr>callers := (callers p)[t := Spawning 0]\<rparr>"
        using AtCheck True False by (simp add: startup_step_def)
      have "u = t0" if "u < T" "is_initializer ((callers p)[t := Spawning 0] ! u)" for u
        using that only [of u] I(1) tT t0 by (simp add: nth_list_update split: if_splits)
      then show ?thesis
        unfolding st first_caller_inv_def using held by simp
    qed
  next
    case (Spawning i)
    with only [OF tT] have t0: "t = t0" by simp
    show ?thesis
    proof (cases "i < n")
      case less: True
      have st: "startup_step n p t
                  = p\<lparr>queueMonitors := queueMonitors p @ [i],
                      callers := (callers p)[t := Spawning (Suc i)]\<rparr>"
        using Spawning True less by (simp add: startup_step_def)
      have "u = t0" if "u < T" "is_initializer ((callers p)[t := Spawning (Suc i)] ! u)" for u
        using that only [of u] I(1) tT t0 by (simp add: nth_list_update split: if_splits)
      then show ?thesis
        unfolding st first_caller_inv_def using held by simp
    next
      case False
      have st: "startup_step n p t
                  = p\<lparr>isStarted := True, tpLock := None,
                      callers := (callers p)[t := ReturnedAsInitializer]\<rparr>"
        using Spawning True False by (simp add: startup_step_def)
      have "u = t0" if "u < T" "is_initializer ((callers p)[t := ReturnedAsInitializer] ! u)"
        for u
        using that only [of u] I(1) tT t0 by (simp add: nth_list_update split: if_splits)
      then show ?thesis
        unfolding st first_caller_inv_def by simp
    qed
  next
    case ReturnedAsInitializer
    with True fc show ?thesis by (simp add: startup_step_def)
  next
    case ReturnedOnFlag
    with True fc show ?thesis by (simp add: startup_step_def)
  qed
qed

lemma first_caller_run:
  "startup_inv n T p \<Longrightarrow> first_caller_inv T t0 p \<Longrightarrow>
     first_caller_inv T t0 (startup_run n p sched)"
  unfolding startup_run_def
  by (induction sched arbitrary: p) (simp_all add: startup_inv_step first_caller_step)

lemma first_caller_only:
  assumes "t0 < T"
  shows "first_caller_inv T t0 (startup_run n (startup_init T) (t0 # sched))"
proof -
  have "startup_run n (startup_init T) (t0 # sched)
          = startup_run n (startup_step n (startup_init T) t0) sched"
    by (simp add: startup_run_def)
  moreover have "startup_inv n T (startup_step n (startup_init T) t0)"
    by (rule startup_inv_step [OF startup_inv_init])
  ultimately show ?thesis
    using first_caller_run [OF _ first_caller_init [OF assms]] by simp
qed

lemma sum_list_map_update:
  "t < length xs \<Longrightarrow>
     sum_list (map f (xs[t := y])) + f (xs ! t) = sum_list (map f xs) + (f y :: nat)"
proof (induction xs arbitrary: t)
  case Nil
  then show ?case by simp
next
  case (Cons x xs)
  show ?case
  proof (cases t)
    case 0
    then show ?thesis by simp
  next
    case (Suc j)
    with Cons.prems have "j < length xs" by simp
    from Cons.IH [OF this] show ?thesis by (simp add: Suc)
  qed
qed

lemma steps_left_update:
  assumes "t < length (callers p)" "steps_left n k < steps_left n (callers p ! t)"
  shows "sum_list (map (steps_left n) ((callers p)[t := k]))
           < sum_list (map (steps_left n) (callers p))"
  using sum_list_map_update [OF assms(1), of "steps_left n" k] assms(2) by linarith

lemma startup_measure_decreases:
  assumes "startup_step n p t \<noteq> p"
  shows "startup_measure n (startup_step n p t) < startup_measure n p"
proof -
  from assms have t: "t < length (callers p)"
    by (auto simp: startup_step_def split: if_splits)
  show ?thesis
  proof (cases "callers p ! t")
    case AtLock
    with assms t have "tpLock p = None" by (auto simp: startup_step_def split: if_splits)
    with AtLock t steps_left_update [OF t, of n AtCheck] show ?thesis
      by (simp add: startup_step_def startup_measure_def)
  next
    case AtCheck
    with t steps_left_update [OF t, of n ReturnedOnFlag]
      steps_left_update [OF t, of n "Spawning 0"]
    show ?thesis
      by (simp add: startup_step_def startup_measure_def)
  next
    case (Spawning i)
    with t steps_left_update [OF t, of n ReturnedAsInitializer]
      steps_left_update [OF t, of n "Spawning (Suc i)"]
    show ?thesis
      by (auto simp: startup_step_def startup_measure_def)
  next
    case ReturnedAsInitializer
    with assms t show ?thesis by (simp add: startup_step_def)
  next
    case ReturnedOnFlag
    with assms t show ?thesis by (simp add: startup_step_def)
  qed
qed

lemma startup_progress:
  assumes inv: "startup_inv n T p" and t: "t < T" "\<not> has_returned (callers p ! t)"
  shows "\<exists>u<T. startup_step n p u \<noteq> p"
proof (cases "tpLock p")
  case None
  note I = startup_invD [OF inv]
  from I(2) [OF t(1)] None have "\<not> in_guard (callers p ! t)" by simp
  from not_guard_cases [OF this] t(2) have "callers p ! t = AtLock" by auto
  with I(1) t None have "tpLock (startup_step n p t) = Some t"
    by (simp add: startup_step_def)
  with None have "startup_step n p t \<noteq> p" by auto
  with t show ?thesis by blast
next
  case (Some u)
  note I = startup_invD [OF inv]
  from I(3) [OF Some] have u: "u < T" .
  from I(2) [OF u] Some have g: "in_guard (callers p ! u)" by simp
  have "startup_step n p u \<noteq> p"
  proof
    assume same: "startup_step n p u = p"
    show False
    proof (cases "callers p ! u")
      case AtLock
      with g show False by simp
    next
      case AtCheck
      show False
      proof (cases "isStarted p")
        case True
        with AtCheck u I(1) have "tpLock (startup_step n p u) = None"
          by (simp add: startup_step_def)
        with same Some show False by simp
      next
        case False
        with AtCheck u I(1) have "callers (startup_step n p u) ! u = Spawning 0"
          by (simp add: startup_step_def)
        with same AtCheck show False by simp
      qed
    next
      case (Spawning i)
      show False
      proof (cases "i < n")
        case True
        with Spawning u I(1) have "callers (startup_step n p u) ! u = Spawning (Suc i)"
          by (simp add: startup_step_def)
        with same Spawning show False by simp
      next
        case False
        with Spawning u I(1) have "tpLock (startup_step n p u) = None"
          by (simp add: startup_step_def)
        with same Some show False by simp
      qed
    next
      case ReturnedAsInitializer
      with g show False by simp
    next
      case ReturnedOnFlag
      with g show False by simp
    qed
  qed
  with u show ?thesis by blast
qed

lemma filter_at_most_one:
  "(\<And>i j. i < length xs \<Longrightarrow> j < length xs \<Longrightarrow> P (xs ! i) \<Longrightarrow> P (xs ! j) \<Longrightarrow> i = j)
     \<Longrightarrow> length (filter P xs) \<le> 1"
proof (induction xs)
  case Nil
  show ?case by simp
next
  case (Cons x xs)
  have rest: "length (filter P xs) \<le> 1"
  proof (rule Cons.IH)
    fix i j assume "i < length xs" "j < length xs" "P (xs ! i)" "P (xs ! j)"
    with Cons.prems [of "Suc i" "Suc j"] show "i = j" by simp
  qed
  show ?case
  proof (cases "P x")
    case False
    with rest show ?thesis by simp
  next
    case True
    have "filter P xs = []"
    proof (rule ccontr)
      assume "filter P xs \<noteq> []"
      then obtain y where "y \<in> set xs" "P y"
        by (metis filter_empty_conv)
      then obtain j where "j < length xs" "xs ! j = y"
        by (auto simp: in_set_conv_nth)
      with Cons.prems [of 0 "Suc j"] True \<open>P y\<close> show False by simp
    qed
    with True show ?thesis by simp
  qed
qed

lemma startup_inv_one_initializer:
  assumes "startup_inv n T p"
  shows "length (filter is_initializer (callers p)) \<le> 1"
proof (rule filter_at_most_one)
  note I = startup_invD [OF assms]
  fix i j
  assume "i < length (callers p)" "j < length (callers p)"
    "is_initializer (callers p ! i)" "is_initializer (callers p ! j)"
  with I(1) I(8) [of i j] show "i = j" by simp
qed

text \<open>
  C9. \<open>T\<close> threads call \<^verbatim>\<open>startup()\<close> concurrently, on a pool of \<open>n\<close> workers. After
  every schedule of their steps: the workers spawned are bound to the spokes
  \<open>0, 1, ..., k-1\<close> in order for some \<open>k\<close> up to \<open>n\<close>, never more; at most one caller
  spawns or has spawned workers, and it is the caller that took the first step; once
  the pool is started exactly \<open>n\<close> workers exist, bound to the spokes \<open>0..n-1\<close>, and
  one caller has returned as the initializer; before the pool is started no caller
  has returned, so every other caller returns only after reading the flag of the
  started pool. While some caller has not returned, some caller can take a step that
  changes the pool, and every such step lowers a bound on the steps left: the callers
  cannot block each other for ever.
\<close>

theorem startup_exactly_once:
  "p = startup_run n (startup_init T) sched \<Longrightarrow>
     length (callers p) = T \<and>
     (\<exists>k\<le>n. queueMonitors p = [0..<k]) \<and>
     length (filter is_initializer (callers p)) \<le> 1 \<and>
     (sched = t0 # sched' \<and> t0 < T \<longrightarrow> (\<forall>t<T. is_initializer (callers p ! t) \<longrightarrow> t = t0)) \<and>
     (isStarted p \<longrightarrow>
        queueMonitors p = [0..<n] \<and> ReturnedAsInitializer \<in> set (callers p)) \<and>
     (\<not> isStarted p \<longrightarrow> (\<forall>t<T. \<not> has_returned (callers p ! t))) \<and>
     ((\<exists>t<T. \<not> has_returned (callers p ! t)) \<longrightarrow> (\<exists>t<T. startup_step n p t \<noteq> p)) \<and>
     (startup_step n p t \<noteq> p \<longrightarrow>
        startup_measure n (startup_step n p t) < startup_measure n p)"
proof -
  assume p: "p = startup_run n (startup_init T) sched"
  then have inv: "startup_inv n T p"
    by (simp add: startup_inv_run startup_inv_init)
  note I = startup_invD [OF inv]
  have workers: "\<exists>k\<le>n. queueMonitors p = [0..<k]"
  proof (cases "isStarted p")
    case True
    with I(5) show ?thesis by auto
  next
    case False
    show ?thesis
    proof (cases "\<exists>u<T. \<exists>i. callers p ! u = Spawning i")
      case True
      then obtain u i where "u < T" "callers p ! u = Spawning i" by blast
      from I(4) [OF this] show ?thesis by auto
    next
      case none: False
      have "\<not> is_initializer (callers p ! u)" if "u < T" for u
        using none I(6) [OF False that] that by (cases "callers p ! u") auto
      with I(7) [OF False] have "queueMonitors p = [0..<0]" by simp
      then show ?thesis by blast
    qed
  qed
  have first: "\<forall>t<T. is_initializer (callers p ! t) \<longrightarrow> t = t0"
    if "sched = t0 # sched'" "t0 < T"
    using first_caller_only [OF that(2), of n sched'] p that(1)
    by (simp add: first_caller_inv_def)
  have started: "queueMonitors p = [0..<n] \<and> ReturnedAsInitializer \<in> set (callers p)"
    if "isStarted p"
    using I(5) [OF that] I(1) by (auto simp: in_set_conv_nth)
  have waiting: "\<forall>t<T. \<not> has_returned (callers p ! t)" if "\<not> isStarted p"
    using I(6) [OF that] by blast
  have progress: "\<exists>t<T. startup_step n p t \<noteq> p" if "\<exists>t<T. \<not> has_returned (callers p ! t)"
    using that startup_progress [OF inv] by blast
  show ?thesis
    using I(1) workers startup_inv_one_initializer [OF inv] first started waiting progress
      startup_measure_decreases [of n p t]
    by blast
qed

theorem startup_exactly_once_witness:
  "startup_run nThreads (startup_init 3)
     [1, 0, 2, 1, 0, 1, 2, 1, 1, 0, 1, 1, 2, 0, 0, 2, 2, 2, 0, 0]
     = \<lparr>tpLock = None, isStarted = True, queueMonitors = [0, 1, 2, 3],
        callers = [ReturnedOnFlag, ReturnedAsInitializer, ReturnedOnFlag]\<rparr> \<and>
   [0, 1, 2, 3] = [0..<nThreads] \<and>
   startup_run nThreads (startup_init 3) [1, 0, 2, 1, 0, 1]
     = \<lparr>tpLock = Some 1, isStarted = False, queueMonitors = [0],
        callers = [AtLock, Spawning 1, AtLock]\<rparr> \<and>
   (\<exists>t<3. startup_step nThreads
            \<lparr>tpLock = Some 1, isStarted = False, queueMonitors = [0],
             callers = [AtLock, Spawning 1, AtLock]\<rparr> t
          \<noteq> \<lparr>tpLock = Some 1, isStarted = False, queueMonitors = [0],
             callers = [AtLock, Spawning 1, AtLock]\<rparr>) \<and>
   startup_measure nThreads
     (startup_step nThreads
        \<lparr>tpLock = Some 1, isStarted = False, queueMonitors = [0],
         callers = [AtLock, Spawning 1, AtLock]\<rparr> 1)
     < startup_measure nThreads
         \<lparr>tpLock = Some 1, isStarted = False, queueMonitors = [0],
          callers = [AtLock, Spawning 1, AtLock]\<rparr>"
proof -
  let ?all = "[1, 0, 2, 1, 0, 1, 2, 1, 1, 0, 1, 1, 2, 0, 0, 2, 2, 2, 0, 0] :: nat list"
  let ?end = "\<lparr>tpLock = None, isStarted = True, queueMonitors = [0, 1, 2, 3],
        callers = [ReturnedOnFlag, ReturnedAsInitializer, ReturnedOnFlag]\<rparr>"
  let ?mid = "\<lparr>tpLock = Some 1, isStarted = False, queueMonitors = [0],
        callers = [AtLock, Spawning 1, AtLock]\<rparr>"
  have e: "?end = startup_run nThreads (startup_init 3) ?all"
    by code_simp
  have m: "?mid = startup_run nThreads (startup_init 3) [1, 0, 2, 1, 0, 1]"
    by code_simp
  have first: "?all = 1 # tl ?all \<and> (1::nat) < 3"
    by simp
  have busy: "\<exists>t<3. \<not> has_returned (callers ?mid ! t)"
    by (rule exI [of _ 0]) simp
  have change: "startup_step nThreads ?mid 1 \<noteq> ?mid"
    by (simp add: startup_step_def nThreads_def)
  note fin = startup_exactly_once [OF e, of 1 "tl ?all" 1]
  note run = startup_exactly_once [OF m, of 1 "tl [1, 0, 2, 1, 0, 1]" 1]
  from fin have "queueMonitors ?end = [0..<nThreads]"
    by simp
  then have a: "[0, 1, 2, 3] = [0..<nThreads]"
    by simp
  from fin first have "\<forall>t<3. is_initializer (callers ?end ! t) \<longrightarrow> t = 1"
    by blast
  from run busy have b: "\<exists>t<3. startup_step nThreads ?mid t \<noteq> ?mid"
    by blast
  from run change
  have c: "startup_measure nThreads (startup_step nThreads ?mid 1) < startup_measure nThreads ?mid"
    by blast
  show ?thesis
    using e m a b c by simp
qed

end
